theory Spec2Isabelle
  imports Complex_Main "HOL-Library.Word" "HOL-Library.Log_Nat"
begin

section \<open>Text mode of PurrintApp.tsx: strings\<close>

text \<open>
  A JavaScript string is a sequence of UTF-16 code units: \<^verbatim>\<open>s[i]\<close>, \<^verbatim>\<open>s.length\<close> and
  \<^verbatim>\<open>s.slice\<close> count code units, so a string is a list of 16-bit words. Every character
  the component tests for lies in the Basic Multilingual Plane and is one code unit.
\<close>

type_synonym ustring = "16 word list"

definition utf16 :: "string \<Rightarrow> ustring" where
  "utf16 s = map (\<lambda>c. of_nat (of_char c)) s"

definition TAB :: "16 word" where "TAB = 9"
definition LF :: "16 word" where "LF = 10"
definition CR :: "16 word" where "CR = 13"
definition SPACE :: "16 word" where "SPACE = 32"
definition HYPHEN :: "16 word" where "HYPHEN = 45"

subsection \<open>Constants of the component\<close>

definition PREVIEW_WIDTH :: nat where "PREVIEW_WIDTH = 384"
definition TEXT_PADDING :: real where "TEXT_PADDING = 16"
definition TEXT_FONT_SIZE :: real where "TEXT_FONT_SIZE = 16"
definition TEXT_LINE_HEIGHT :: real where "TEXT_LINE_HEIGHT = 1.4"
definition MIN_TEXT_HEIGHT :: nat where "MIN_TEXT_HEIGHT = 120"
definition TEXT_THRESHOLD :: real where "TEXT_THRESHOLD = 200"

subsection \<open>normalizeTextForPrinting\<close>

text \<open>
  \<^verbatim>\<open>value.replace(/\t/g, "    ")\<close>: the global replace scans the string from the left and
  emits the replacement at every match, every other code unit as it is.
\<close>

fun normalizeTextForPrinting :: "ustring \<Rightarrow> ustring" where
  "normalizeTextForPrinting [] = []"
| "normalizeTextForPrinting (c # cs) =
     (if c = TAB then [SPACE, SPACE, SPACE, SPACE] @ normalizeTextForPrinting cs
      else c # normalizeTextForPrinting cs)"

subsection \<open>wrapMonospaceText\<close>

text \<open>\<^verbatim>\<open>value.replace(/\r\n/g, "\n")\<close>: every CR LF pair, matched from the left, becomes LF.\<close>

fun replaceCRLF :: "ustring \<Rightarrow> ustring" where
  "replaceCRLF [] = []"
| "replaceCRLF [c] = [c]"
| "replaceCRLF (c # d # cs) =
     (if c = CR \<and> d = LF then LF # replaceCRLF cs else c # replaceCRLF (d # cs))"

text \<open>The test \<^verbatim>\<open>char === " " || char === "\t" || char === "-"\<close>.\<close>

definition isBreakChar :: "16 word \<Rightarrow> bool" where
  "isBreakChar c \<longleftrightarrow> c = SPACE \<or> c = TAB \<or> c = HYPHEN"

text \<open>
  \<^verbatim>\<open>s.slice(0, k)\<close> and \<^verbatim>\<open>s.slice(k)\<close> for an integer \<open>k\<close>: a negative \<open>k\<close> counts from the
  end of the string, and both clamp to the string.
\<close>

definition sliceTo :: "ustring \<Rightarrow> int \<Rightarrow> ustring" where
  "sliceTo s k = (if k < 0 then take (length s - nat (- k)) s else take (nat k) s)"

definition sliceFrom :: "ustring \<Rightarrow> int \<Rightarrow> ustring" where
  "sliceFrom s k = (if k < 0 then drop (length s - nat (- k)) s else drop (nat k) s)"

text \<open>The local variables of wrapMonospaceText that the loop updates.\<close>

record wrap_state =
  lines :: "ustring list"
  currentLine :: ustring
  column :: int
  lastBreakColumn :: int
  lastBreakIndex :: int

definition wrapInit :: wrap_state where
  "wrapInit = \<lparr>lines = [], currentLine = [], column = 0,
               lastBreakColumn = - 1, lastBreakIndex = - 1\<rparr>"

definition pushCurrentLine :: "wrap_state \<Rightarrow> wrap_state" where
  "pushCurrentLine st = \<lparr>lines = lines st @ [currentLine st], currentLine = [], column = 0,
                         lastBreakColumn = - 1, lastBreakIndex = - 1\<rparr>"

text \<open>
  The inner loop \<^verbatim>\<open>for (let j = 0; j < currentLine.length; j++)\<close> after a soft break: it
  starts from \<open>-1\<close> and records \<open>j + 1\<close> at every breakable character of the carried-over
  rest; the same value goes to lastBreakColumn and lastBreakIndex.
\<close>

definition rescan :: "ustring \<Rightarrow> int" where
  "rescan cl = fold (\<lambda>j lb. if isBreakChar (cl ! j) then int j + 1 else lb) [0..<length cl] (- 1)"

text \<open>The body of the main loop, for one character \<open>char\<close> of the normalized text.\<close>

definition wrapStep :: "int \<Rightarrow> 16 word \<Rightarrow> wrap_state \<Rightarrow> wrap_state" where
  "wrapStep limit char st =
     (if char = LF then pushCurrentLine st
      else
        let st1 = st\<lparr>currentLine := currentLine st @ [char], column := column st + 1\<rparr>;
            st2 = (if isBreakChar char
                   then st1\<lparr>lastBreakColumn := column st1,
                            lastBreakIndex := int (length (currentLine st1))\<rparr>
                   else st1)
        in if column st2 \<ge> limit then
             (if lastBreakColumn st2 > 0 \<and> lastBreakColumn st2 < column st2 then
                let breakIndex = lastBreakIndex st2;
                    linePart = sliceTo (currentLine st2) breakIndex;
                    rest = sliceFrom (currentLine st2) breakIndex
                in \<lparr>lines = lines st2 @ [linePart], currentLine = rest,
                    column = int (length rest),
                    lastBreakColumn = rescan rest, lastBreakIndex = rescan rest\<rparr>
              else \<lparr>lines = lines st2 @ [currentLine st2], currentLine = [], column = 0,
                    lastBreakColumn = - 1, lastBreakIndex = - 1\<rparr>)
           else st2)"

text \<open>
  The main loop visits the code units of the normalized text in order; after it the
  current line is pushed and the lines are returned.
\<close>

definition wrapLoop :: "int \<Rightarrow> ustring \<Rightarrow> wrap_state \<Rightarrow> wrap_state" where
  "wrapLoop limit normalized st = fold (wrapStep limit) normalized st"

definition wrapLines :: "int \<Rightarrow> ustring \<Rightarrow> ustring list" where
  "wrapLines limit normalized =
     (let st = wrapLoop limit normalized wrapInit in lines st @ [currentLine st])"

definition wrapMonospaceText :: "ustring \<Rightarrow> int \<Rightarrow> ustring list" where
  "wrapMonospaceText val maxCharsPerLine =
     (let limit = max 1 maxCharsPerLine;
          normalized = replaceCRLF val
      in wrapLines limit normalized)"

section \<open>Text mode of PurrintApp.tsx: the canvas\<close>

subsection \<open>Numbers\<close>

text \<open>
  JavaScript numbers are IEEE 754 doubles. A number is modelled by the real it stands for;
  there is no NaN, no infinity and no negative zero among the reals, and the print path
  produces none. Arithmetic is exact in the model except where the code observes how a
  double was rounded:
  \<^item> \<^verbatim>\<open>Math.floor(maxWidth / charWidth)\<close> takes the integer part of a rounded quotient, and
    a quotient just below an integer may round to it. The quotient and the operands
    computed for it are rounded to doubles by \<open>toDouble\<close> below.
  \<^item> \<^verbatim>\<open>Math.ceil(requiredHeight)\<close> rounds a sum up. The height is kept exact: for a line
    count that is a multiple of 5 the real \<open>32 + n * 22.4\<close> is an integer, and the double
    is at most that integer and within a fraction of it; for any other line count real and
    double differ by less than a millionth, against the 0.2 or more that separates them
    from the nearest integer. So both round up to the same height, for every line count
    up to a hundred million and beyond what a canvas can hold.
  \<^item> The positions handed to \<^verbatim>\<open>fillText\<close> are exact as well; they differ from the doubles
    of the code by less than a millionth of a pixel, and nothing below depends on them.
\<close>

text \<open>
  Rounding to the nearest integer, ties to the even one, as the significand of a double
  is rounded.
\<close>

definition roundHalfEven :: "real \<Rightarrow> int" where
  "roundHalfEven y =
     (let f = \<lfloor>y\<rfloor>
      in if y - of_int f < 1 / 2 then f
         else if 1 / 2 < y - of_int f then f + 1
         else if even f then f else f + 1)"

text \<open>
  The exponent \<open>e\<close> of a positive real, \<open>2 ^ e \<le> x < 2 ^ (e + 1)\<close>, and no less than the
  least exponent \<open>-1022\<close> of a normal double, which the subnormal doubles share.
\<close>

definition binadeOf :: "real \<Rightarrow> int" where
  "binadeOf x =
     max (- 1022) (if 1 \<le> x then bitlen \<lfloor>x\<rfloor> - 1 else - bitlen (\<lceil>1 / x\<rceil> - 1))"

text \<open>
  The double nearest to a real: 53 significant bits, round to nearest, ties to even. A
  result of \<open>2 ^ 1024\<close> or more stands for \<open>Infinity\<close>.
\<close>

definition toDouble :: "real \<Rightarrow> real" where
  "toDouble x =
     (if x = 0 then 0
      else let ulp = 2 powi (binadeOf \<bar>x\<bar> - 52)
           in sgn x * (of_int (roundHalfEven (\<bar>x\<bar> / ulp)) * ulp))"

type_synonym rgba = "8 word \<times> 8 word \<times> 8 word \<times> 8 word"

type_synonym pixels = "nat \<Rightarrow> nat \<Rightarrow> rgba"

text \<open>A font as the canvas context receives it: \<^verbatim>\<open>`${fontSize}px ${fontFamily}`\<close>.\<close>

type_synonym font = "real \<times> string"

text \<open>ImageData: width, height and the RGBA bytes (a Uint8ClampedArray), row-major.\<close>

record image_data =
  imgWidth :: nat
  imgHeight :: nat
  imgData :: "8 word list"

text \<open>
  The canvas element with its bitmap; \<open>bitmap c x y\<close> is the pixel in column \<open>x\<close> of row
  \<open>y\<close>. Only the pixels inside \<open>canvasWidth \<times> canvasHeight\<close> are ever read.
\<close>

record canvas =
  canvasWidth :: nat
  canvasHeight :: nat
  bitmap :: pixels

text \<open>
  What the component takes from the browser and from \<^verbatim>\<open>services/printer.ts\<close>: the width
  the text engine measures for a string in a font, the glyphs it paints for a string at a
  position, and whether \<^verbatim>\<open>printImage\<close> resolves (\<open>True\<close>) or rejects. ensureFontLoaded
  swallows every failure and returns nothing; which font is in effect shows in these two
  functions only.
\<close>

record browser =
  measureText :: "font \<Rightarrow> ustring \<Rightarrow> real"
  fillText :: "font \<Rightarrow> ustring \<Rightarrow> real \<Rightarrow> real \<Rightarrow> pixels \<Rightarrow> pixels"
  printImage :: "image_data \<Rightarrow> bool"

datatype dom_exception = IndexSizeError

definition transparentBlack :: rgba where "transparentBlack = (0, 0, 0, 0)"
definition opaqueWhite :: rgba where "opaqueWhite = (255, 255, 255, 255)"

text \<open>
  \<^verbatim>\<open>canvas.width = w\<close> and \<^verbatim>\<open>canvas.height = h\<close>: setting either dimension clears the bitmap
  to transparent black. The sizes are non-negative integers here; the print path never
  supplies a height below MIN_TEXT_HEIGHT.
\<close>

definition setCanvasWidth :: "nat \<Rightarrow> canvas \<Rightarrow> canvas" where
  "setCanvasWidth w c = c\<lparr>canvasWidth := w, bitmap := (\<lambda>x y. transparentBlack)\<rparr>"

definition setCanvasHeight :: "nat \<Rightarrow> canvas \<Rightarrow> canvas" where
  "setCanvasHeight h c = c\<lparr>canvasHeight := h, bitmap := (\<lambda>x y. transparentBlack)\<rparr>"

text \<open>\<^verbatim>\<open>ctx.fillStyle = "#fff"; ctx.fillRect(0, 0, canvas.width, canvas.height)\<close>.\<close>

definition fillRectWhite :: "canvas \<Rightarrow> canvas" where
  "fillRectWhite c =
     c\<lparr>bitmap := (\<lambda>x y. if x < canvasWidth c \<and> y < canvasHeight c then opaqueWhite
                          else bitmap c x y)\<rparr>"

text \<open>
  \<^verbatim>\<open>ctx.getImageData(0, 0, canvas.width, canvas.height)\<close>: an IndexSizeError when either
  side is zero, otherwise the four bytes of every pixel, row by row.
\<close>

definition pixelBytes :: "rgba \<Rightarrow> 8 word list" where
  "pixelBytes px = (case px of (r, g, b, a) \<Rightarrow> [r, g, b, a])"

definition getImageData :: "canvas \<Rightarrow> dom_exception + image_data" where
  "getImageData c =
     (if canvasWidth c = 0 \<or> canvasHeight c = 0 then Inl IndexSizeError
      else Inr \<lparr>imgWidth = canvasWidth c, imgHeight = canvasHeight c,
                imgData = concat (map (\<lambda>k. pixelBytes (bitmap c (k mod canvasWidth c) (k div canvasWidth c)))
                                   [0..<canvasWidth c * canvasHeight c])\<rparr>)"

text \<open>\<^verbatim>\<open>ctx.putImageData(imageData, 0, 0)\<close> writes the pixels of the image back.\<close>

definition putImageData :: "image_data \<Rightarrow> canvas \<Rightarrow> canvas" where
  "putImageData img c =
     c\<lparr>bitmap := (\<lambda>x y.
          if x < imgWidth img \<and> y < imgHeight img \<and> x < canvasWidth c \<and> y < canvasHeight c
          then (let k = 4 * (y * imgWidth img + x)
                in (imgData img ! k, imgData img ! (k + 1), imgData img ! (k + 2),
                    imgData img ! (k + 3)))
          else bitmap c x y)\<rparr>"

subsection \<open>The thresholding pass\<close>

text \<open>
  \<^verbatim>\<open>for (let i = 0; i < data.length; i += 4)\<close> with its three locals and three writes. A
  write past the end of a typed array is ignored, as \<open>list_update\<close> does.
\<close>

definition luminance :: "8 word list \<Rightarrow> nat \<Rightarrow> 8 word" where
  "luminance data i = data ! i"

definition pixelValue :: "real \<Rightarrow> 8 word \<Rightarrow> 8 word" where
  "pixelValue threshold lum = (if real (unat lum) < threshold then 0 else 255)"

function thresholdLoop :: "real \<Rightarrow> nat \<Rightarrow> 8 word list \<Rightarrow> 8 word list" where
  "thresholdLoop threshold i data =
     (if i < length data then
        let v = pixelValue threshold (luminance data i)
        in thresholdLoop threshold (i + 4) (data[i := v, i + 1 := v, i + 2 := v])
      else data)"
  by pat_completeness auto
termination
  by (relation "measure (\<lambda>(threshold, i, data). length data - i)") auto

declare thresholdLoop.simps [simp del]

subsection \<open>renderTextToCanvas\<close>

record render_options =
  textOpt :: ustring
  width :: nat
  height :: real
  fontSize :: real
  lineHeight :: real
  fontFamily :: string
  padding :: real
  threshold :: real

text \<open>
  \<^verbatim>\<open>Math.max(1, Math.floor(maxWidth / charWidth))\<close>, the quotient rounded as a double. A
  character width of zero, or one so small that the quotient overflows, makes the
  quotient \<open>Infinity\<close> in JavaScript (\<open>maxWidth\<close> is at least 1), a limit no line reaches; a
  limit above the length of the text stands for it.
\<close>

definition charsPerLine :: "real \<Rightarrow> real \<Rightarrow> ustring \<Rightarrow> int" where
  "charsPerLine maxWidth charWidth str =
     (if charWidth = 0 \<or> 2 ^ 1024 \<le> toDouble (maxWidth / charWidth) then int (length str) + 1
      else max 1 \<lfloor>toDouble (maxWidth / charWidth)\<rfloor>)"

text \<open>\<^verbatim>\<open>lines.forEach((line, index) => ctx.fillText(line, padding, padding + index * lineHeightPx))\<close>.\<close>

definition drawLines :: "browser \<Rightarrow> font \<Rightarrow> real \<Rightarrow> real \<Rightarrow> ustring list \<Rightarrow> canvas \<Rightarrow> canvas" where
  "drawLines env fnt pad lineHeightPx lns c =
     fold (\<lambda>(index, line) c'.
             c'\<lparr>bitmap := fillText env fnt line pad (pad + real index * lineHeightPx) (bitmap c')\<rparr>)
          (enumerate 0 lns) c"

definition renderTextToCanvas ::
  "browser \<Rightarrow> render_options \<Rightarrow> canvas \<Rightarrow> canvas \<times> (dom_exception + image_data)" where
  "renderTextToCanvas env opts cnv =
     (let fnt = (fontSize opts, fontFamily opts);
          maxWidth = max 1 (toDouble (real (width opts) - toDouble (padding opts * 2)));
          measured = measureText env fnt (utf16 ''M'');
          charWidth = (if measured = 0 then toDouble (fontSize opts * toDouble 0.6) else measured);
          maxCharsPerLine = charsPerLine maxWidth charWidth (textOpt opts);
          lns = wrapMonospaceText (textOpt opts) maxCharsPerLine;
          lineHeightPx = fontSize opts * lineHeight opts;
          requiredHeight = max (height opts) (padding opts * 2 + real (length lns) * lineHeightPx);
          c1 = setCanvasWidth (width opts) cnv;
          c2 = setCanvasHeight (nat \<lceil>requiredHeight\<rceil>) c1;
          c3 = fillRectWhite c2;
          c4 = drawLines env fnt (padding opts) lineHeightPx lns c3
      in case getImageData c4 of
           Inl e \<Rightarrow> (c4, Inl e)
         | Inr imageData \<Rightarrow>
             (let thresholded = imageData\<lparr>imgData := thresholdLoop (threshold opts) 0 (imgData imageData)\<rparr>
              in (putImageData thresholded c4, Inr thresholded)))"

section \<open>The print button\<close>

text \<open>
  \<^verbatim>\<open>String.prototype.trim\<close> strips the WhiteSpace and LineTerminator code points of
  ECMAScript from both ends.
\<close>

definition isTrimSpace :: "16 word \<Rightarrow> bool" where
  "isTrimSpace c \<longleftrightarrow>
     c = 0x9 \<or> c = 0xA \<or> c = 0xB \<or> c = 0xC \<or> c = 0xD \<or> c = 0x20 \<or> c = 0xA0 \<or> c = 0x1680 \<or>
     (0x2000 \<le> c \<and> c \<le> 0x200A) \<or>
     c = 0x2028 \<or> c = 0x2029 \<or> c = 0x202F \<or> c = 0x205F \<or> c = 0x3000 \<or> c = 0xFEFF"

definition trim :: "ustring \<Rightarrow> ustring" where
  "trim s = rev (dropWhile isTrimSpace (rev (dropWhile isTrimSpace s)))"

datatype mode = ImageMode | TextMode

text \<open>What a click can do that is seen outside the component.\<close>

datatype event = Alert string | ConsoleError string | PrintImage image_data

text \<open>
  The state the handler reads: the mode, the text of the textarea, the image of image
  mode, the canvas behind the ref (None when the ref is empty) and the scrollHeight of
  the textarea behind its ref.
\<close>

record app_state =
  mode :: mode
  textInput :: ustring
  photoImageData :: "image_data option"
  previewCanvas :: "canvas option"
  textArea :: "nat option"

definition printableText :: "app_state \<Rightarrow> ustring" where
  "printableText st = normalizeTextForPrinting (textInput st)"

definition TEXT_FONT_FAMILY :: string where
  "TEXT_FONT_FAMILY = ''\"IBM VGA 9x16\", \"Courier New\", Courier, monospace''"

text \<open>The options onPrintClick passes to renderTextToCanvas.\<close>

definition textPrintOptions :: "ustring \<Rightarrow> nat \<Rightarrow> render_options" where
  "textPrintOptions str contentHeight =
     \<lparr>textOpt = str, width = PREVIEW_WIDTH, height = real contentHeight,
      fontSize = TEXT_FONT_SIZE, lineHeight = TEXT_LINE_HEIGHT, fontFamily = TEXT_FONT_FAMILY,
      padding = TEXT_PADDING, threshold = TEXT_THRESHOLD\<rparr>"

definition printFailed :: "event list" where
  "printFailed = [ConsoleError ''Printing failed:'', Alert ''Printing failed. See console for details.'']"

text \<open>\<^verbatim>\<open>await printImage(imageData)\<close> inside the try block.\<close>

definition sendToPrinter :: "browser \<Rightarrow> image_data \<Rightarrow> event list" where
  "sendToPrinter env imageData =
     (if printImage env imageData then [PrintImage imageData]
      else PrintImage imageData # printFailed)"

definition onPrintClick :: "browser \<Rightarrow> app_state \<Rightarrow> app_state \<times> event list" where
  "onPrintClick env st =
     (if mode st = TextMode then
        (if trim (printableText st) = [] then (st, [Alert ''Please enter some text first.''])
         else
           (case (previewCanvas st, textArea st) of
              (Some cnv, Some scrollHeight) \<Rightarrow>
                (let contentHeight = max scrollHeight MIN_TEXT_HEIGHT
                 in case renderTextToCanvas env (textPrintOptions (printableText st) contentHeight) cnv of
                      (cnv', Inr imageData) \<Rightarrow>
                        (st\<lparr>previewCanvas := Some cnv'\<rparr>, sendToPrinter env imageData)
                    | (cnv', Inl e) \<Rightarrow> (st\<lparr>previewCanvas := Some cnv'\<rparr>, printFailed))
            | _ \<Rightarrow> (st, [Alert ''Unable to render text. Please try again.''])))
      else
        (case photoImageData st of
           None \<Rightarrow> (st, [Alert ''Please select an image first.''])
         | Some imageData \<Rightarrow> (st, sendToPrinter env imageData)))"

section \<open>Derived notions\<close>

text \<open>The locals of renderTextToCanvas as functions of its inputs.\<close>

definition maxCharsPerLineOf :: "browser \<Rightarrow> render_options \<Rightarrow> int" where
  "maxCharsPerLineOf env opts =
     (let maxWidth = max 1 (toDouble (real (width opts) - toDouble (padding opts * 2)));
          measured = measureText env (fontSize opts, fontFamily opts) (utf16 ''M'');
          charWidth = (if measured = 0 then toDouble (fontSize opts * toDouble 0.6) else measured)
      in charsPerLine maxWidth charWidth (textOpt opts))"

definition linesOf :: "browser \<Rightarrow> render_options \<Rightarrow> ustring list" where
  "linesOf env opts = wrapMonospaceText (textOpt opts) (maxCharsPerLineOf env opts)"

definition requiredHeightOf :: "browser \<Rightarrow> render_options \<Rightarrow> real" where
  "requiredHeightOf env opts =
     max (height opts)
         (padding opts * 2 + real (length (linesOf env opts)) * (fontSize opts * lineHeight opts))"

definition rasterOf :: "browser \<Rightarrow> render_options \<Rightarrow> canvas" where
  "rasterOf env opts =
     drawLines env (fontSize opts, fontFamily opts) (padding opts)
       (fontSize opts * lineHeight opts) (linesOf env opts)
       (fillRectWhite \<lparr>canvasWidth = width opts,
                       canvasHeight = nat \<lceil>requiredHeightOf env opts\<rceil>,
                       bitmap = (\<lambda>x y. transparentBlack)\<rparr>)"


text \<open>
  The invariant of the main loop of wrapMonospaceText: the column is the length of the
  current line and stays below the limit, both break markers hold what the inner loop
  would find in the current line, and no pushed line is longer than the limit.
\<close>

definition wrapInv :: "int \<Rightarrow> wrap_state \<Rightarrow> bool" where
  "wrapInv limit st \<longleftrightarrow>
     column st = int (length (currentLine st)) \<and> column st < limit \<and>
     lastBreakColumn st = rescan (currentLine st) \<and>
     lastBreakIndex st = rescan (currentLine st) \<and>
     (\<forall>l \<in> set (lines st). int (length l) \<le> limit)"


text \<open>
  The luminance as the specification words it: the unweighted average of the red, green
  and blue samples of the pixel that starts at index \<open>i\<close>.
\<close>

definition averageRGB :: "8 word list \<Rightarrow> nat \<Rightarrow> real" where
  "averageRGB data i =
     (real (unat (data ! i)) + real (unat (data ! (i + 1))) + real (unat (data ! (i + 2)))) / 3"


text \<open>
  The first line as the specification words it, for a stretch \<open>pre\<close> of text that fills a
  line to the limit: when \<open>pre\<close> holds a breakable character strictly before the limit, the
  line ends right after the last breakable character strictly before the limit; otherwise
  the line is all of \<open>pre\<close>.
\<close>

definition specFirstLine :: "ustring \<Rightarrow> ustring" where
  "specFirstLine pre =
     (case filter (\<lambda>j. isBreakChar (pre ! j)) [0..<length pre - 1] of
        [] \<Rightarrow> pre
      | js \<Rightarrow> take (Suc (last js)) pre)"

subsection \<open>Concrete instances for the examples\<close>

text \<open>
  A browser whose font is 9 pixels wide per character and whose glyphs leave the bitmap
  as it is, a fresh canvas of the default size, and a few strings.
\<close>

definition blankGlyphBrowser :: browser where
  "blankGlyphBrowser =
     \<lparr>measureText = (\<lambda>fnt s. 9 * real (length s)),
      fillText = (\<lambda>fnt s x y px. px),
      printImage = (\<lambda>img. True)\<rparr>"

definition freshCanvas :: canvas where
  "freshCanvas = \<lparr>canvasWidth = 300, canvasHeight = 150, bitmap = (\<lambda>x y. transparentBlack)\<rparr>"

definition helloText :: ustring where
  "helloText = utf16 ''Hello''"


text \<open>The component in text mode with Hello typed and a textarea 100 pixels high.\<close>

definition helloTextState :: app_state where
  "helloTextState =
     \<lparr>mode = TextMode, textInput = helloText, photoImageData = None,
      previewCanvas = Some freshCanvas, textArea = Some 100\<rparr>"

text \<open>The component in text mode with nothing but white space typed.\<close>

definition blankTextState :: app_state where
  "blankTextState =
     \<lparr>mode = TextMode, textInput = [SPACE, TAB, LF], photoImageData = None,
      previewCanvas = Some freshCanvas, textArea = Some 120\<rparr>"

lemmas char_defs = TAB_def LF_def CR_def SPACE_def HYPHEN_def

section \<open>Properties of the rounding to doubles\<close>




lemma raw_binade_ge1:
  fixes x :: real
  assumes "1 \<le> x"
  shows "2 powi (bitlen \<lfloor>x\<rfloor> - 1) \<le> x \<and> x < 2 powi (bitlen \<lfloor>x\<rfloor> - 1 + 1)"
proof -
  let ?n = "\<lfloor>x\<rfloor>"
  have n: "0 < ?n" using assms by simp
  from bitlen_bounds [OF n] have lo: "2 ^ nat (bitlen ?n - 1) \<le> ?n" and hi: "?n < 2 ^ nat (bitlen ?n)"
    by simp_all
  have b1: "1 \<le> bitlen ?n" using n by (simp add: bitlen_alt_def)
  have "(2::real) powi (bitlen ?n - 1) = 2 ^ nat (bitlen ?n - 1)"
    using b1 by (simp add: power_int_def)
  also have "\<dots> = of_int (2 ^ nat (bitlen ?n - 1))" by simp
  also have "\<dots> \<le> of_int ?n" using lo by (simp only: of_int_le_iff)
  also have "\<dots> \<le> x" by simp
  finally have L: "2 powi (bitlen ?n - 1) \<le> x" .
  have "?n + 1 \<le> 2 ^ nat (bitlen ?n)" using hi by simp
  then have "(of_int (?n + 1) :: real) \<le> of_int (2 ^ nat (bitlen ?n))" by (simp only: of_int_le_iff)
  moreover have "x < of_int (?n + 1)" by simp
  ultimately have "x < of_int (2 ^ nat (bitlen ?n))" by linarith
  also have "\<dots> = 2 powi (bitlen ?n - 1 + 1)"
    using b1 by (simp add: power_int_def)
  finally show ?thesis using L by simp
qed

lemma raw_binade_lt1:
  fixes x :: real
  assumes "0 < x" and "x < 1"
  shows "2 powi (- bitlen (\<lceil>1 / x\<rceil> - 1)) \<le> x \<and> x < 2 powi (- bitlen (\<lceil>1 / x\<rceil> - 1) + 1)"
proof -
  define y where "y = 1 / x"
  define c where "c = \<lceil>y\<rceil>"
  define j where "j = bitlen (c - 1)"
  have y1: "1 < y" using assms by (simp add: y_def)
  have x: "x = 1 / y" by (simp add: y_def)
  have c2: "2 \<le> c" using y1 unfolding c_def by (simp add: le_ceiling_iff)
  then have cpos: "0 < c - 1" by simp
  from bitlen_bounds [OF cpos] have lo: "2 ^ nat (j - 1) \<le> c - 1" and hi: "c - 1 < 2 ^ nat j"
    by (simp_all add: j_def)
  have j1: "1 \<le> j" using cpos by (simp add: j_def bitlen_alt_def)
  have yc: "y \<le> of_int c" "of_int (c - 1) < y"
    unfolding c_def by (simp_all add: ceiling_correct)
  have "c \<le> 2 ^ nat j" using hi by simp
  then have "(of_int c :: real) \<le> of_int (2 ^ nat j)" by (simp only: of_int_le_iff)
  also have "(of_int (2 ^ nat j) :: real) = 2 ^ nat j" by simp
  finally have "(of_int c :: real) \<le> 2 ^ nat j" .
  with yc(1) have yj: "y \<le> 2 ^ nat j" by linarith
  have "(2::real) ^ nat (j - 1) = of_int (2 ^ nat (j - 1))" by simp
  also have "\<dots> \<le> of_int (c - 1)" using lo by (simp only: of_int_le_iff)
  finally have "(2::real) ^ nat (j - 1) \<le> of_int (c - 1)" .
  with yc(2) have jy: "2 ^ nat (j - 1) < y" by linarith
  have "(2::real) powi (- j) = 1 / 2 ^ nat j"
    using j1 by (simp add: power_int_def field_simps)
  also have "\<dots> \<le> 1 / y" using yj y1 by (intro divide_left_mono) simp_all
  finally have L: "2 powi (- j) \<le> x" unfolding x .
  have "x < 1 / 2 ^ nat (j - 1)"
    unfolding x using jy y1 by (intro divide_strict_left_mono) simp_all
  also have "\<dots> = 2 powi (- j + 1)"
  proof (cases "j = 1")
    case True
    then show ?thesis by simp
  next
    case False
    with j1 have "- j + 1 < 0" "nat (j - 1) = nat (- (- j + 1))" by simp_all
    then show ?thesis by (simp add: power_int_def field_simps)
  qed
  finally show ?thesis using L by (simp add: j_def c_def y_def)
qed

lemma binade_upper: "0 < (x::real) \<Longrightarrow> x < 2 powi (binadeOf x + 1)"
proof -
  assume x: "0 < x"
  define r where "r = (if 1 \<le> x then bitlen \<lfloor>x\<rfloor> - 1 else - bitlen (\<lceil>1 / x\<rceil> - 1))"
  have "x < 2 powi (r + 1)"
    using raw_binade_ge1 [of x] raw_binade_lt1 [of x] x by (auto simp: r_def)
  also have "\<dots> \<le> 2 powi (max (- 1022) r + 1)"
    by (intro power_int_increasing) simp_all
  finally show ?thesis by (simp add: binadeOf_def r_def)
qed

lemma binade_lower: "0 < (x::real) \<Longrightarrow> - 1022 < binadeOf x \<Longrightarrow> 2 powi binadeOf x \<le> x"
proof -
  assume x: "0 < x" and b: "- 1022 < binadeOf x"
  define r where "r = (if 1 \<le> x then bitlen \<lfloor>x\<rfloor> - 1 else - bitlen (\<lceil>1 / x\<rceil> - 1))"
  have eq: "binadeOf x = max (- 1022) r" by (simp add: binadeOf_def r_def)
  with b have "binadeOf x = r" by (simp add: max_def split: if_splits)
  moreover have "2 powi r \<le> x"
    using raw_binade_ge1 [of x] raw_binade_lt1 [of x] x by (auto simp: r_def)
  ultimately show ?thesis by simp
qed

lemma binade_min: "- 1022 \<le> binadeOf x"
  by (simp add: binadeOf_def)

lemma binadeOf_eq:
  assumes "2 powi e \<le> x" and "x < 2 powi (e + 1)" and "- 1022 \<le> e"
  shows "binadeOf x = e"
proof -
  have "(0::real) < 2 powi e" by simp
  with assms(1) have x: "0 < x" by linarith
  show ?thesis
  proof (rule antisym)
    show "binadeOf x \<le> e"
    proof (rule ccontr)
      assume "\<not> binadeOf x \<le> e"
      then have g: "e + 1 \<le> binadeOf x" by simp
      with assms(3) have "- 1022 < binadeOf x" by simp
      from binade_lower [OF x this] have "2 powi binadeOf x \<le> x" .
      moreover have "(2::real) powi (e + 1) \<le> 2 powi binadeOf x"
        using g by (intro power_int_increasing) simp_all
      ultimately show False using assms(2) by linarith
    qed
  next
    show "e \<le> binadeOf x"
    proof (rule ccontr)
      assume "\<not> e \<le> binadeOf x"
      then have g: "binadeOf x + 1 \<le> e" by simp
      have "x < 2 powi (binadeOf x + 1)" using x by (rule binade_upper)
      also have "\<dots> \<le> 2 powi e" using g by (intro power_int_increasing) simp_all
      finally show False using assms(1) by simp
    qed
  qed
qed

lemma toDouble_pos:
  "0 < x \<Longrightarrow> toDouble x = of_int (roundHalfEven (x / 2 powi (binadeOf x - 52))) * 2 powi (binadeOf x - 52)"
  by (simp add: toDouble_def Let_def)









section \<open>Properties of wrapMonospaceText\<close>

subsection \<open>The inner loop\<close>

lemma rescan_Nil: "rescan [] = - 1"
  by (simp add: rescan_def)

lemma rescan_snoc:
  "rescan (cl @ [c]) = (if isBreakChar c then int (length cl) + 1 else rescan cl)"
proof -
  have "fold (\<lambda>j lb. if isBreakChar ((cl @ [c]) ! j) then int j + 1 else lb) [0..<length cl] (- 1)
      = fold (\<lambda>j lb. if isBreakChar (cl ! j) then int j + 1 else lb) [0..<length cl] (- 1)"
    by (rule fold_cong) (auto simp: nth_append)
  then show ?thesis
    by (simp add: rescan_def)
qed

lemma rescan_range: "rescan cl = - 1 \<or> (1 \<le> rescan cl \<and> rescan cl \<le> int (length cl))"
  by (induction cl rule: rev_induct) (auto simp: rescan_Nil rescan_snoc)

lemma rescan_none: "(\<And>c. c \<in> set cl \<Longrightarrow> \<not> isBreakChar c) \<Longrightarrow> rescan cl = - 1"
  by (induction cl rule: rev_induct) (auto simp: rescan_Nil rescan_snoc)

lemma rescan_drop: "c \<in> set (drop (nat (rescan cl)) cl) \<Longrightarrow> \<not> isBreakChar c"
proof (induction cl rule: rev_induct)
  case Nil
  then show ?case by simp
next
  case (snoc x xs)
  show ?case
  proof (cases "isBreakChar x")
    case True
    with snoc.prems show ?thesis by (simp add: rescan_snoc)
  next
    case False
    have "nat (rescan xs) \<le> length xs" using rescan_range [of xs] by auto
    with snoc False show ?thesis by (auto simp: rescan_snoc)
  qed
qed

lemma rescan_last:
  assumes "p < length cl" "isBreakChar (cl ! p)"
    and "\<And>j. p < j \<Longrightarrow> j < length cl \<Longrightarrow> \<not> isBreakChar (cl ! j)"
  shows "rescan cl = int p + 1"
  using assms
proof (induction cl rule: rev_induct)
  case Nil
  then show ?case by simp
next
  case (snoc x xs)
  show ?case
  proof (cases "p = length xs")
    case True
    with snoc.prems(2) show ?thesis by (simp add: rescan_snoc)
  next
    case False
    with snoc.prems(1) have p: "p < length xs" by simp
    have nb: "\<not> isBreakChar x"
      using snoc.prems(3) [of "length xs"] p by simp
    have "rescan xs = int p + 1"
    proof (rule snoc.IH [OF p])
      show "isBreakChar (xs ! p)" using snoc.prems(2) p by (simp add: nth_append)
    next
      fix j assume "p < j" "j < length xs"
      then show "\<not> isBreakChar (xs ! j)"
        using snoc.prems(3) [of j] by (simp add: nth_append)
    qed
    with nb show ?thesis by (simp add: rescan_snoc)
  qed
qed

lemma slice_append: "sliceTo s k @ sliceFrom s k = s"
  by (simp add: sliceTo_def sliceFrom_def)

subsection \<open>The loop invariant of wrapMonospaceText\<close>

lemma wrapInv_init: "1 \<le> limit \<Longrightarrow> wrapInv limit wrapInit"
  by (simp add: wrapInv_def wrapInit_def rescan_Nil)

lemma wrapInv_step:
  assumes "1 \<le> limit" and "wrapInv limit st"
  shows "wrapInv limit (wrapStep limit c st)"
proof (cases "c = LF")
  case True
  with assms show ?thesis
    by (auto simp: wrapStep_def pushCurrentLine_def wrapInv_def rescan_Nil)
next
  case False
  let ?cl = "currentLine st @ [c]"
  have r: "rescan ?cl = - 1 \<or> (1 \<le> rescan ?cl \<and> rescan ?cl \<le> int (length ?cl))"
    by (rule rescan_range)
  from assms False r show ?thesis
    by (auto simp: wrapStep_def wrapInv_def Let_def rescan_snoc rescan_Nil sliceTo_def sliceFrom_def
             split: if_splits)
qed

lemma wrapInv_loop:
  "1 \<le> limit \<Longrightarrow> wrapInv limit st \<Longrightarrow> wrapInv limit (wrapLoop limit xs st)"
  unfolding wrapLoop_def
  by (induction xs arbitrary: st) (simp_all add: wrapInv_step)

lemma wrapLines_length:
  assumes "1 \<le> limit" and "l \<in> set (wrapLines limit xs)"
  shows "int (length l) \<le> limit"
proof -
  have "wrapInv limit (wrapLoop limit xs wrapInit)"
    using assms(1) by (simp add: wrapInv_loop wrapInv_init)
  with assms(2) show ?thesis
    by (auto simp: wrapLines_def Let_def wrapInv_def)
qed

subsection \<open>No character is lost\<close>

lemma wrapStep_content:
  "concat (lines (wrapStep limit c st)) @ currentLine (wrapStep limit c st) =
     concat (lines st) @ currentLine st @ (if c = LF then [] else [c])"
  by (simp add: wrapStep_def pushCurrentLine_def Let_def slice_append)

lemma wrapLoop_content:
  "concat (lines (wrapLoop limit xs st)) @ currentLine (wrapLoop limit xs st) =
     concat (lines st) @ currentLine st @ filter (\<lambda>c. c \<noteq> LF) xs"
  unfolding wrapLoop_def
proof (induction xs arbitrary: st)
  case Nil
  show ?case by simp
next
  case (Cons x xs)
  have "concat (lines (fold (wrapStep limit) (x # xs) st)) @
          currentLine (fold (wrapStep limit) (x # xs) st) =
        (concat (lines (wrapStep limit x st)) @ currentLine (wrapStep limit x st)) @
          filter (\<lambda>c. c \<noteq> LF) xs"
    using Cons.IH [of "wrapStep limit x st"] by simp
  also have "\<dots> = concat (lines st) @ currentLine st @ filter (\<lambda>c. c \<noteq> LF) (x # xs)"
    unfolding wrapStep_content by simp
  finally show ?case .
qed

lemma wrapLines_content: "concat (wrapLines limit xs) = filter (\<lambda>c. c \<noteq> LF) xs"
  using wrapLoop_content [of limit xs wrapInit]
  by (simp add: wrapLines_def Let_def wrapInit_def)

subsection \<open>The first line of the wrapped text\<close>

lemma wrapStep_lines_prefix:
  "wrapStep limit c (st\<lparr>lines := ls @ lines st\<rparr>) =
     (wrapStep limit c st)\<lparr>lines := ls @ lines (wrapStep limit c st)\<rparr>"
  by (simp add: wrapStep_def pushCurrentLine_def Let_def)

lemma wrapLoop_lines_prefix:
  "wrapLoop limit xs (st\<lparr>lines := ls @ lines st\<rparr>) =
     (wrapLoop limit xs st)\<lparr>lines := ls @ lines (wrapLoop limit xs st)\<rparr>"
  unfolding wrapLoop_def
proof (induction xs arbitrary: st)
  case Nil
  show ?case by simp
next
  case (Cons x xs)
  show ?case
    using Cons.IH [of "wrapStep limit x st"] by (simp add: wrapStep_lines_prefix)
qed

lemma wrapLoop_append:
  "wrapLoop limit (xs @ ys) st = wrapLoop limit ys (wrapLoop limit xs st)"
  by (simp add: wrapLoop_def)

lemma wrapStep_canon:
  fixes q :: ustring and c :: "16 word"
  defines "cl \<equiv> q @ [c]"
  assumes "c \<noteq> LF"
  shows "wrapStep limit c \<lparr>lines = ls, currentLine = q, column = int (length q),
                           lastBreakColumn = rescan q, lastBreakIndex = rescan q\<rparr> =
     (if limit \<le> int (length cl) then
        (if 0 < rescan cl \<and> rescan cl < int (length cl)
         then \<lparr>lines = ls @ [take (nat (rescan cl)) cl],
               currentLine = drop (nat (rescan cl)) cl,
               column = int (length (drop (nat (rescan cl)) cl)),
               lastBreakColumn = rescan (drop (nat (rescan cl)) cl),
               lastBreakIndex = rescan (drop (nat (rescan cl)) cl)\<rparr>
         else \<lparr>lines = ls @ [cl], currentLine = [], column = 0,
               lastBreakColumn = - 1, lastBreakIndex = - 1\<rparr>)
      else \<lparr>lines = ls, currentLine = cl, column = int (length cl),
            lastBreakColumn = rescan cl, lastBreakIndex = rescan cl\<rparr>)"
proof -
  have len: "int (length cl) = int (length q) + 1" by (simp add: cl_def)
  have r: "rescan cl = (if isBreakChar c then int (length q) + 1 else rescan q)"
    unfolding cl_def by (rule rescan_snoc)
  show ?thesis
  proof (cases "isBreakChar c")
    case True
    with assms(2) len r show ?thesis
      unfolding wrapStep_def Let_def
      by (simp add: sliceTo_def sliceFrom_def cl_def [symmetric])
  next
    case False
    with assms(2) len r show ?thesis
      unfolding wrapStep_def Let_def
      by (simp add: sliceTo_def sliceFrom_def cl_def [symmetric])
  qed
qed

lemma wrapLoop_short:
  assumes "LF \<notin> set q" and "int (length q) < limit"
  shows "wrapLoop limit q wrapInit =
           \<lparr>lines = [], currentLine = q, column = int (length q),
            lastBreakColumn = rescan q, lastBreakIndex = rescan q\<rparr>"
  using assms
proof (induction q rule: rev_induct)
  case Nil
  show ?case by (simp add: wrapLoop_def wrapInit_def rescan_Nil)
next
  case (snoc c q)
  then have st: "wrapLoop limit q wrapInit =
           \<lparr>lines = [], currentLine = q, column = int (length q),
            lastBreakColumn = rescan q, lastBreakIndex = rescan q\<rparr>"
    by simp
  from snoc.prems have c: "c \<noteq> LF" and len: "\<not> limit \<le> int (length (q @ [c]))" by auto
  have "wrapLoop limit (q @ [c]) wrapInit = wrapStep limit c (wrapLoop limit q wrapInit)"
    by (simp add: wrapLoop_def)
  also have "\<dots> = \<lparr>lines = [], currentLine = q @ [c], column = int (length (q @ [c])),
            lastBreakColumn = rescan (q @ [c]), lastBreakIndex = rescan (q @ [c])\<rparr>"
    unfolding st wrapStep_canon [OF c] using len by (simp only: if_False)
  finally show ?case .
qed

lemma wrapLoop_full:
  assumes "LF \<notin> set pre" and "int (length pre) = limit" and "1 \<le> limit"
  shows "wrapLoop limit pre wrapInit =
           (if 0 < rescan pre \<and> rescan pre < limit
            then \<lparr>lines = [take (nat (rescan pre)) pre],
                  currentLine = drop (nat (rescan pre)) pre,
                  column = int (length (drop (nat (rescan pre)) pre)),
                  lastBreakColumn = - 1, lastBreakIndex = - 1\<rparr>
            else \<lparr>lines = [pre], currentLine = [], column = 0,
                  lastBreakColumn = - 1, lastBreakIndex = - 1\<rparr>)"
proof -
  from assms obtain q c where pre: "pre = q @ [c]"
    by (cases pre rule: rev_cases) auto
  with assms have c: "c \<noteq> LF" and q: "LF \<notin> set q" and len: "int (length q) < limit"
    by auto
  have st: "wrapLoop limit q wrapInit =
           \<lparr>lines = [], currentLine = q, column = int (length q),
            lastBreakColumn = rescan q, lastBreakIndex = rescan q\<rparr>"
    using q len by (rule wrapLoop_short)
  have nb: "rescan (drop (nat (rescan pre)) pre) = - 1"
    by (rule rescan_none) (rule rescan_drop)
  have "wrapLoop limit pre wrapInit = wrapStep limit c (wrapLoop limit q wrapInit)"
    by (simp add: wrapLoop_def pre)
  also have "\<dots> = (if 0 < rescan pre \<and> rescan pre < limit
            then \<lparr>lines = [take (nat (rescan pre)) pre],
                  currentLine = drop (nat (rescan pre)) pre,
                  column = int (length (drop (nat (rescan pre)) pre)),
                  lastBreakColumn = - 1, lastBreakIndex = - 1\<rparr>
            else \<lparr>lines = [pre], currentLine = [], column = 0,
                  lastBreakColumn = - 1, lastBreakIndex = - 1\<rparr>)"
    unfolding st wrapStep_canon [OF c] pre [symmetric] nb
    using assms(2) by simp
  finally show ?thesis .
qed

lemma wrapLines_cons:
  assumes "wrapLoop limit pre wrapInit =
             (wrapLoop limit carry wrapInit)\<lparr>lines := l # lines (wrapLoop limit carry wrapInit)\<rparr>"
  shows "wrapLines limit (pre @ rest) = l # wrapLines limit (carry @ rest)"
  using wrapLoop_lines_prefix [where limit = limit and xs = rest and st = "wrapLoop limit carry wrapInit" and ls = "[l]"]
  by (simp add: wrapLines_def Let_def wrapLoop_append assms)

lemma wrapLines_soft_break:
  assumes "LF \<notin> set pre" and "int (length pre) = limit"
    and "p < length pre" and "isBreakChar (pre ! p)"
    and "\<And>j. p < j \<Longrightarrow> j < length pre \<Longrightarrow> \<not> isBreakChar (pre ! j)"
  shows "wrapLines limit (pre @ rest) =
           take (Suc p) pre # wrapLines limit (drop (Suc p) pre @ rest)"
proof -
  have r: "rescan pre = int p + 1"
    using assms(3-5) by (rule rescan_last)
  have lim: "1 \<le> limit" using assms(2,3) by auto
  have full: "wrapLoop limit pre wrapInit =
           (if 0 < rescan pre \<and> rescan pre < limit
            then \<lparr>lines = [take (nat (rescan pre)) pre],
                  currentLine = drop (nat (rescan pre)) pre,
                  column = int (length (drop (nat (rescan pre)) pre)),
                  lastBreakColumn = - 1, lastBreakIndex = - 1\<rparr>
            else \<lparr>lines = [pre], currentLine = [], column = 0,
                  lastBreakColumn = - 1, lastBreakIndex = - 1\<rparr>)"
    using assms(1,2) lim by (rule wrapLoop_full)
  have nat_r: "nat (rescan pre) = Suc p" using r by simp
  have lf: "LF \<notin> set (drop (Suc p) pre)"
    using assms(1) by (auto dest: in_set_dropD)
  have short: "int (length (drop (Suc p) pre)) < limit"
    using assms(2,3) by auto
  have nb: "rescan (drop (Suc p) pre) = - 1"
    using rescan_drop [of _ pre] unfolding nat_r by (intro rescan_none) auto
  have carry: "wrapLoop limit (drop (Suc p) pre) wrapInit =
           \<lparr>lines = [], currentLine = drop (Suc p) pre, column = int (length (drop (Suc p) pre)),
            lastBreakColumn = - 1, lastBreakIndex = - 1\<rparr>"
    using wrapLoop_short [OF lf short] nb by simp
  show ?thesis
  proof (rule wrapLines_cons)
    show "wrapLoop limit pre wrapInit =
            (wrapLoop limit (drop (Suc p) pre) wrapInit)
              \<lparr>lines := take (Suc p) pre # lines (wrapLoop limit (drop (Suc p) pre) wrapInit)\<rparr>"
    proof (cases "p + 1 < length pre")
      case True
      then show ?thesis
        unfolding full carry using r assms(2) nat_r by simp
    next
      case False
      with assms(3) have "Suc p = length pre" by simp
      then show ?thesis
        unfolding full carry using r assms(2) by (simp add: wrapInit_def wrapLoop_def)
    qed
  qed
qed

lemma wrapLines_hard_break:
  assumes "LF \<notin> set pre" and "int (length pre) = limit" and "1 \<le> limit"
    and "\<And>j. Suc j < length pre \<Longrightarrow> \<not> isBreakChar (pre ! j)"
  shows "wrapLines limit (pre @ rest) = pre # wrapLines limit rest"
proof (cases "isBreakChar (last pre)")
  case True
  have ne: "pre \<noteq> []" using assms(2,3) by auto
  have "wrapLines limit (pre @ rest) =
           take (Suc (length pre - 1)) pre # wrapLines limit (drop (Suc (length pre - 1)) pre @ rest)"
    using assms(1,2) ne True by (intro wrapLines_soft_break) (auto simp: last_conv_nth)
  with ne show ?thesis by simp
next
  case False
  have "\<not> isBreakChar c" if "c \<in> set pre" for c
  proof -
    from that obtain j where j: "j < length pre" "pre ! j = c"
      by (auto simp: in_set_conv_nth)
    show ?thesis
    proof (cases "Suc j < length pre")
      case True
      with assms(4) j show ?thesis by auto
    next
      case False
      with j have "j = length pre - 1" by simp
      with j \<open>\<not> isBreakChar (last pre)\<close> show ?thesis
        by (cases pre rule: rev_cases) (auto simp: last_conv_nth)
    qed
  qed
  then have r: "rescan pre = - 1" by (rule rescan_none)
  have full: "wrapLoop limit pre wrapInit =
            \<lparr>lines = [pre], currentLine = [], column = 0,
                  lastBreakColumn = - 1, lastBreakIndex = - 1\<rparr>"
    using wrapLoop_full [OF assms(1-3)] r by simp
  have "wrapLines limit (pre @ rest) = pre # wrapLines limit ([] @ rest)"
  proof (rule wrapLines_cons)
    have "wrapLoop limit [] wrapInit = wrapInit" by (simp add: wrapLoop_def)
    then show "wrapLoop limit pre wrapInit =
        (wrapLoop limit [] wrapInit)\<lparr>lines := pre # lines (wrapLoop limit [] wrapInit)\<rparr>"
      unfolding full by (simp add: wrapInit_def)
  qed
  then show ?thesis by simp
qed

subsection \<open>Lines that end at a line feed\<close>

lemma wrapLines_newline:
  assumes "LF \<notin> set q" and "int (length q) < limit"
  shows "wrapLines limit (q @ LF # rest) = q # wrapLines limit rest"
proof -
  have "wrapLoop limit (q @ [LF]) wrapInit = wrapStep limit LF (wrapLoop limit q wrapInit)"
    by (simp add: wrapLoop_def)
  also have "\<dots> = \<lparr>lines = [q], currentLine = [], column = 0,
                     lastBreakColumn = - 1, lastBreakIndex = - 1\<rparr>"
    unfolding wrapLoop_short [OF assms] by (simp add: wrapStep_def pushCurrentLine_def)
  finally have st: "wrapLoop limit (q @ [LF]) wrapInit =
      \<lparr>lines = [q], currentLine = [], column = 0, lastBreakColumn = - 1, lastBreakIndex = - 1\<rparr>" .
  have "wrapLines limit ((q @ [LF]) @ rest) = q # wrapLines limit ([] @ rest)"
  proof (rule wrapLines_cons)
    have "wrapLoop limit [] wrapInit = wrapInit" by (simp add: wrapLoop_def)
    then show "wrapLoop limit (q @ [LF]) wrapInit =
        (wrapLoop limit [] wrapInit)\<lparr>lines := q # lines (wrapLoop limit [] wrapInit)\<rparr>"
      unfolding st by (simp add: wrapInit_def)
  qed
  then show ?thesis by simp
qed

text \<open>
  Every text starts in one of three ways: with a stretch free of line feeds that fills a
  line to the limit, with a shorter such stretch and a line feed, or it is such a stretch
  and nothing else.
\<close>

lemma wrap_text_cases:
  assumes "1 \<le> limit"
  shows "(\<exists>pre rest. xs = pre @ rest \<and> LF \<notin> set pre \<and> int (length pre) = limit) \<or>
         (\<exists>q rest. xs = q @ LF # rest \<and> LF \<notin> set q \<and> int (length q) < limit) \<or>
         (LF \<notin> set xs \<and> int (length xs) < limit)"
proof -
  define q where "q = takeWhile (\<lambda>c. c \<noteq> LF) xs"
  define r where "r = dropWhile (\<lambda>c. c \<noteq> LF) xs"
  have xs: "xs = q @ r" by (simp add: q_def r_def)
  have q: "LF \<notin> set q" unfolding q_def by (auto dest: set_takeWhileD)
  show ?thesis
  proof (cases "limit \<le> int (length q)")
    case True
    have "xs = take (nat limit) q @ (drop (nat limit) q @ r)" by (simp add: xs)
    moreover have "LF \<notin> set (take (nat limit) q)" using q by (auto dest: in_set_takeD)
    moreover have "int (length (take (nat limit) q)) = limit" using True assms by simp
    ultimately show ?thesis by blast
  next
    case False
    then have short: "int (length q) < limit" by simp
    show ?thesis
    proof (cases r)
      case Nil
      with xs q short show ?thesis by simp
    next
      case (Cons c cs)
      then have "c = LF" using hd_dropWhile [of "\<lambda>c. c \<noteq> LF" xs] by (simp add: r_def)
      with Cons xs q short show ?thesis by blast
    qed
  qed
qed

section \<open>Properties of the thresholding pass and of renderTextToCanvas\<close>

subsection \<open>The thresholding pass, sample by sample\<close>

lemma thresholdLoop_length: "length (thresholdLoop t i d) = length d"
proof (induction t i d rule: thresholdLoop.induct)
  case (1 t i d)
  show ?case
  proof (cases "i < length d")
    case True
    with "1" show ?thesis by (simp add: thresholdLoop.simps [of t i d] Let_def)
  next
    case False
    then show ?thesis by (simp add: thresholdLoop.simps [of t i d])
  qed
qed

lemma update3_nth:
  "j < length d \<Longrightarrow>
     d[i := v, i + 1 := v, i + 2 := v] ! j = (if j = i \<or> j = i + 1 \<or> j = i + 2 then v else d ! j)"
  by (auto simp: nth_list_update)

lemma thresholdLoop_nth:
  "j < length d \<Longrightarrow>
     thresholdLoop t i d ! j =
       (if j < i \<or> (j - i) mod 4 = 3 then d ! j
        else pixelValue t (luminance d (j - (j - i) mod 4)))"
proof (induction t i d rule: thresholdLoop.induct)
  case (1 t i d)
  show ?case
  proof (cases "i < length d")
    case False
    with "1.prems" show ?thesis by (simp add: thresholdLoop.simps [of t i d])
  next
    case True
    define v where "v = pixelValue t (luminance d i)"
    define d' where "d' = d[i := v, i + 1 := v, i + 2 := v]"
    have step: "thresholdLoop t i d = thresholdLoop t (i + 4) d'"
      using True by (simp add: thresholdLoop.simps [of t i d] Let_def v_def d'_def)
    have len: "length d' = length d" by (simp add: d'_def)
    have nth': "d' ! k = (if k = i \<or> k = i + 1 \<or> k = i + 2 then v else d ! k)"
      if "k < length d" for k
      unfolding d'_def using that by (rule update3_nth)
    have IH: "thresholdLoop t (i + 4) d' ! j =
       (if j < i + 4 \<or> (j - (i + 4)) mod 4 = 3 then d' ! j
        else pixelValue t (luminance d' (j - (j - (i + 4)) mod 4)))"
      using "1.IH" [OF True v_def] "1.prems" len unfolding d'_def [symmetric] by simp
    consider (before) "j < i" | (at) "j = i \<or> j = i + 1 \<or> j = i + 2" | (alpha) "j = i + 3"
      | (after) "i + 4 \<le> j"
      by linarith
    then show ?thesis
    proof cases
      case before
      then show ?thesis unfolding step IH using nth' [OF "1.prems"] by simp
    next
      case at
      then have "(j - i) mod 4 = j - i" "j - (j - i) = i" "\<not> j < i" "j - i \<noteq> 3" by auto
      with at show ?thesis unfolding step IH using nth' [OF "1.prems"] by (auto simp: v_def)
    next
      case alpha
      then show ?thesis unfolding step IH using nth' [OF "1.prems"] by simp
    next
      case after
      from after obtain n where n: "j = i + 4 + n"
        using le_Suc_ex by blast
      have m: "(j - (i + 4)) mod 4 = (j - i) mod 4"
        unfolding n by simp
      have "(j - i) mod 4 = n mod 4" unfolding n by simp
      then have "(j - i) mod 4 \<le> n" by simp
      then have k: "i + 4 \<le> j - (j - i) mod 4" unfolding n by linarith
      have klt: "j - (j - i) mod 4 < length d" using "1.prems" by simp
      have "d' ! (j - (j - i) mod 4) = d ! (j - (j - i) mod 4)"
        using nth' [OF klt] k by simp
      moreover have "d' ! j = d ! j" using nth' [OF "1.prems"] after by simp
      ultimately show ?thesis
        unfolding step IH m using after by (simp add: luminance_def)
    qed
  qed
qed

lemma canvas_reset:
  "setCanvasHeight h (setCanvasWidth w c) =
     \<lparr>canvasWidth = w, canvasHeight = h, bitmap = (\<lambda>x y. transparentBlack)\<rparr>"
  by (simp add: setCanvasHeight_def setCanvasWidth_def)

lemma renderTextToCanvas_raster:
  "renderTextToCanvas env opts cnv =
     (case getImageData (rasterOf env opts) of
        Inl e \<Rightarrow> (rasterOf env opts, Inl e)
      | Inr imageData \<Rightarrow>
          (putImageData (imageData\<lparr>imgData := thresholdLoop (threshold opts) 0 (imgData imageData)\<rparr>)
             (rasterOf env opts),
           Inr (imageData\<lparr>imgData := thresholdLoop (threshold opts) 0 (imgData imageData)\<rparr>)))"
  unfolding renderTextToCanvas_def rasterOf_def requiredHeightOf_def linesOf_def
    maxCharsPerLineOf_def Let_def canvas_reset
  by (rule refl)

lemma drawLines_size:
  "canvasWidth (drawLines env fnt pad lh lns c) = canvasWidth c \<and>
   canvasHeight (drawLines env fnt pad lh lns c) = canvasHeight c"
proof -
  have "canvasWidth (fold (\<lambda>(index, line) c'.
             c'\<lparr>bitmap := fillText env fnt line pad (pad + real index * lh) (bitmap c')\<rparr>) xs c)
          = canvasWidth c \<and>
        canvasHeight (fold (\<lambda>(index, line) c'.
             c'\<lparr>bitmap := fillText env fnt line pad (pad + real index * lh) (bitmap c')\<rparr>) xs c)
          = canvasHeight c" for xs
    by (induction xs arbitrary: c) (auto simp: case_prod_beta)
  then show ?thesis by (simp add: drawLines_def)
qed

lemma rasterOf_size:
  "canvasWidth (rasterOf env opts) = width opts"
  "canvasHeight (rasterOf env opts) = nat \<lceil>requiredHeightOf env opts\<rceil>"
  by (simp_all add: rasterOf_def drawLines_size fillRectWhite_def)

lemma pixelBytes_length: "length (pixelBytes px) = 4"
  by (cases px) (simp add: pixelBytes_def)

lemma concat_pixels_length: "length (concat (map (\<lambda>k. pixelBytes (f k)) xs)) = 4 * length xs"
  by (induction xs) (simp_all add: pixelBytes_length)

lemma renderTextToCanvas_image:
  assumes "0 < width opts" and "0 < requiredHeightOf env opts"
  shows "\<exists>cnv' img. renderTextToCanvas env opts cnv = (cnv', Inr img) \<and>
           imgWidth img = width opts \<and>
           imgHeight img = nat \<lceil>requiredHeightOf env opts\<rceil> \<and>
           length (imgData img) = 4 * (imgWidth img * imgHeight img)"
proof -
  have "0 < nat \<lceil>requiredHeightOf env opts\<rceil>" using assms(2) by simp
  with assms(1) show ?thesis
    unfolding renderTextToCanvas_raster
    by (simp add: getImageData_def rasterOf_size thresholdLoop_length concat_pixels_length)
qed

lemma thresholdLoop_uniform:
  assumes "\<And>j. j < length d \<Longrightarrow> j mod 4 \<noteq> 3 \<Longrightarrow> d ! j = c" and "pixelValue t c = c"
  shows "thresholdLoop t 0 d = d"
proof (rule nth_equalityI)
  show "length (thresholdLoop t 0 d) = length d" by (rule thresholdLoop_length)
next
  fix j assume "j < length (thresholdLoop t 0 d)"
  then have j: "j < length d" by (simp add: thresholdLoop_length)
  show "thresholdLoop t 0 d ! j = d ! j"
  proof (cases "j mod 4 = 3")
    case True
    with j show ?thesis by (simp add: thresholdLoop_nth)
  next
    case False
    have k: "j - j mod 4 < length d" using j by simp
    have "(j - j mod 4) mod 4 = 0" by (simp add: minus_mod_eq_mult_div)
    then have "d ! (j - j mod 4) = c" using assms(1) [OF k] by simp
    with False j assms show ?thesis by (simp add: thresholdLoop_nth luminance_def)
  qed
qed

lemma thresholdLoop_pixel:
  assumes "4 * p + k < length d" and "k < 4"
  shows "thresholdLoop t 0 d ! (4 * p + k) =
           (if k = 3 then d ! (4 * p + k) else pixelValue t (luminance d (4 * p)))"
proof -
  have "(4 * p + k) mod 4 = k" using assms(2) by simp
  then show ?thesis
    using thresholdLoop_nth [OF assms(1), of t 0] by simp
qed

lemma wrapMonospaceText_eq:
  "wrapMonospaceText val n = wrapLines (max 1 n) (replaceCRLF val)"
  by (simp add: wrapMonospaceText_def)

lemma wrapLines_single:
  assumes "LF \<notin> set q" and "int (length q) < limit"
  shows "wrapLines limit q = [q]"
  by (simp add: wrapLines_def wrapLoop_short [OF assms])

lemma print_options_fields:
  "textOpt (textPrintOptions str h) = str"
  "width (textPrintOptions str h) = 384"
  "height (textPrintOptions str h) = real h"
  "fontSize (textPrintOptions str h) = 16"
  "lineHeight (textPrintOptions str h) = 14 / 10"
  "fontFamily (textPrintOptions str h) = TEXT_FONT_FAMILY"
  "padding (textPrintOptions str h) = 16"
  "threshold (textPrintOptions str h) = 200"
  by (simp_all add: textPrintOptions_def PREVIEW_WIDTH_def TEXT_FONT_SIZE_def
        TEXT_LINE_HEIGHT_def TEXT_PADDING_def TEXT_THRESHOLD_def)

lemma print_requiredHeight:
  "requiredHeightOf env (textPrintOptions str h) =
     max (real h) (32 + real (length (linesOf env (textPrintOptions str h))) * (16 * (14 / 10)))"
  by (simp add: requiredHeightOf_def print_options_fields)

lemma print_image:
  "\<exists>cnv' img.
     renderTextToCanvas env (textPrintOptions str (max scrollHeight MIN_TEXT_HEIGHT)) cnv = (cnv', Inr img) \<and>
     imgWidth img = 384 \<and>
     imgHeight img = nat \<lceil>requiredHeightOf env (textPrintOptions str (max scrollHeight MIN_TEXT_HEIGHT))\<rceil> \<and>
     length (imgData img) = 4 * (imgWidth img * imgHeight img)"
proof -
  let ?opts = "textPrintOptions str (max scrollHeight MIN_TEXT_HEIGHT)"
  have w: "0 < width ?opts" by (simp add: print_options_fields)
  have "0 < real (max scrollHeight MIN_TEXT_HEIGHT)" by (simp add: MIN_TEXT_HEIGHT_def)
  also have "\<dots> \<le> requiredHeightOf env ?opts" unfolding print_requiredHeight by simp
  finally have h: "0 < requiredHeightOf env ?opts" .
  from renderTextToCanvas_image [OF w h, of cnv] show ?thesis
    by (auto simp: print_options_fields)
qed












lemma binade_352_9: "binadeOf (352 / 9) = 5"
  by (rule binadeOf_eq) simp_all



text \<open>
  Two quotients that round to an integer the exact quotient does not reach: a measured
  width of 39.111111111111114, the double nearest to 352 / 9, gives 9 characters to the
  line, and the double 8.8 gives 40.
\<close>

lemma charsPerLine_rounded:
  "charsPerLine 352 (toDouble (352 / 9)) str = 9"
  "\<lfloor>352 / toDouble (352 / 9)\<rfloor> = 8"
  "charsPerLine 352 (toDouble (44 / 5)) str = 40"
  "\<lfloor>352 / toDouble (44 / 5)\<rfloor> = 39"
proof -
  have w1: "toDouble (352 / 9) = 1376099886140985 / 35184372088832"
    by (simp add: toDouble_pos binade_352_9 roundHalfEven_def Let_def)
  have b1: "binadeOf (12384898975268864 / 1376099886140985) = 3"
    by (rule binadeOf_eq) simp_all
  have q1: "toDouble (12384898975268864 / 1376099886140985) = 9"
    by (simp add: toDouble_pos b1 roundHalfEven_def Let_def)
  have b2: "binadeOf (44 / 5) = 3" by (rule binadeOf_eq) simp_all
  have w2: "toDouble (44 / 5) = 2476979795053773 / 281474976710656"
    by (simp add: toDouble_pos b2 roundHalfEven_def Let_def)
  have b3: "binadeOf (99079191802150912 / 2476979795053773) = 5"
    by (rule binadeOf_eq) simp_all
  have q2: "toDouble (99079191802150912 / 2476979795053773) = 40"
    by (simp add: toDouble_pos b3 roundHalfEven_def Let_def)
  show "charsPerLine 352 (toDouble (352 / 9)) str = 9"
    unfolding w1 by (simp add: charsPerLine_def q1)
  show "\<lfloor>352 / toDouble (352 / 9)\<rfloor> = 8" unfolding w1 by simp
  show "charsPerLine 352 (toDouble (44 / 5)) str = 40"
    unfolding w2 by (simp add: charsPerLine_def q2)
  show "\<lfloor>352 / toDouble (44 / 5)\<rfloor> = 39" unfolding w2 by simp
qed


lemma wrap_examples:
  "wrapMonospaceText [97, 98, 32, 99, 100, 101] 4 = [[97, 98, 32], [99, 100, 101]]"
  "wrapMonospaceText [97, 98, 99, 100, 101] 4 = [[97, 98, 99, 100], [101]]"
  "wrapMonospaceText [97, 32, 98, 45, 99] 4 = [[97, 32, 98, 45], [99]]"
  unfolding wrapMonospaceText_eq
  by (simp_all add: char_defs wrapLines_def wrapLoop_def wrapStep_def wrapInit_def
        pushCurrentLine_def isBreakChar_def sliceTo_def sliceFrom_def rescan_def Let_def)

subsection \<open>Blank text\<close>

lemma trim_blank: "trim s = [] \<longleftrightarrow> list_all isTrimSpace s"
proof
  assume "trim s = []"
  then have all: "\<forall>x \<in> set (dropWhile isTrimSpace s). isTrimSpace x"
    by (simp add: trim_def dropWhile_eq_Nil_conv)
  have "dropWhile isTrimSpace s = []"
  proof (rule ccontr)
    assume ne: "dropWhile isTrimSpace s \<noteq> []"
    then have "\<not> isTrimSpace (hd (dropWhile isTrimSpace s))" by (rule hd_dropWhile)
    moreover have "hd (dropWhile isTrimSpace s) \<in> set (dropWhile isTrimSpace s)"
      using ne by (rule hd_in_set)
    ultimately show False using all by blast
  qed
  then show "list_all isTrimSpace s"
    by (simp add: dropWhile_eq_Nil_conv list_all_iff)
next
  assume "list_all isTrimSpace s"
  then have e: "dropWhile isTrimSpace s = []"
    by (simp add: dropWhile_eq_Nil_conv list_all_iff)
  show "trim s = []" unfolding trim_def e by simp
qed

subsection \<open>What the print button hands to printImage\<close>

lemma onPrintClick_text_events:
  assumes "mode st = TextMode" and "PrintImage img \<in> set (snd (onPrintClick env st))"
  shows "\<exists>cnv scrollHeight cnv'.
           renderTextToCanvas env (textPrintOptions (printableText st) (max scrollHeight MIN_TEXT_HEIGHT)) cnv
             = (cnv', Inr img)"
  using assms
  by (auto simp: onPrintClick_def Let_def sendToPrinter_def printFailed_def
           split: if_splits option.splits prod.splits sum.splits)

lemma hello_trim: "trim (printableText helloTextState) \<noteq> []"
  by (simp add: trim_blank printableText_def helloTextState_def helloText_def utf16_def
        char_defs isTrimSpace_def)

section \<open>The claims\<close>

subsection \<open>The size of the printed bitmap\<close>

text \<open>
  C1. For every text, every scrollHeight of the textarea and every state of the canvas,
  renderTextToCanvas with the options of the print button returns an ImageData, and its
  width is PREVIEW_WIDTH, which is 384; its buffer holds four bytes for each of its
  384 times height pixels. Every image that a click in text mode hands to printImage is
  384 pixels wide.
\<close>


theorem text_image_width:
  "(\<exists>cnv' img.
     renderTextToCanvas env (textPrintOptions str (max scrollHeight MIN_TEXT_HEIGHT)) cnv = (cnv', Inr img) \<and>
     imgWidth img = PREVIEW_WIDTH \<and> PREVIEW_WIDTH = 384 \<and>
     length (imgData img) = 4 * (384 * imgHeight img)) \<and>
   (mode st = TextMode \<and> PrintImage printed \<in> set (snd (onPrintClick env st)) \<longrightarrow>
      imgWidth printed = 384)"
proof -
  have "imgWidth printed = 384"
    if "mode st = TextMode" and "PrintImage printed \<in> set (snd (onPrintClick env st))"
  proof -
    from onPrintClick_text_events [OF that] obtain c sh c' where
      r: "renderTextToCanvas env (textPrintOptions (printableText st) (max sh MIN_TEXT_HEIGHT)) c
             = (c', Inr printed)"
      by blast
    with print_image [of env "printableText st" sh c] show ?thesis by auto
  qed
  with print_image [of env str scrollHeight cnv] show ?thesis
    by (auto simp: PREVIEW_WIDTH_def)
qed

text \<open>
  Hello typed, a font 9 pixels wide: the click hands the rendered image to printImage, and
  it is 384 pixels wide.
\<close>

theorem text_image_width_witness:
  "mode helloTextState = TextMode \<and>
   PrintImage (projr (snd (renderTextToCanvas blankGlyphBrowser
                 (textPrintOptions helloText (max 100 MIN_TEXT_HEIGHT)) freshCanvas)))
     \<in> set (snd (onPrintClick blankGlyphBrowser helloTextState)) \<and>
   imgWidth (projr (snd (renderTextToCanvas blankGlyphBrowser
                 (textPrintOptions helloText (max 100 MIN_TEXT_HEIGHT)) freshCanvas))) = 384"
proof -
  let ?img = "projr (snd (renderTextToCanvas blankGlyphBrowser
                 (textPrintOptions helloText (max 100 MIN_TEXT_HEIGHT)) freshCanvas))"
  have m: "mode helloTextState = TextMode" by (simp add: helloTextState_def)
  have p: "printableText helloTextState = helloText"
    by (simp add: printableText_def helloTextState_def helloText_def utf16_def char_defs)
  from print_image [of blankGlyphBrowser helloText 100 freshCanvas] obtain c' img where
    r: "renderTextToCanvas blankGlyphBrowser (textPrintOptions helloText (max 100 MIN_TEXT_HEIGHT)) freshCanvas
          = (c', Inr img)"
    by blast
  have ok: "printImage blankGlyphBrowser img" by (simp add: blankGlyphBrowser_def)
  have e: "PrintImage ?img \<in> set (snd (onPrintClick blankGlyphBrowser helloTextState))"
    using hello_trim ok unfolding onPrintClick_def p
    by (simp add: helloTextState_def r sendToPrinter_def)
  from text_image_width [of blankGlyphBrowser helloText 100 freshCanvas helloTextState ?img] m e
  show ?thesis by blast
qed





subsection \<open>Thresholding\<close>

text \<open>
  C3. The thresholding pass of renderTextToCanvas quantizes every pixel of the buffer: the
  red, green and blue samples of the pixel all receive the same value, which is 0 exactly
  when the luminance sample the loop reads for that pixel is strictly below the threshold
  and 255 otherwise; the alpha sample and the length of the buffer stay as they are. It
  holds for every threshold, so for the threshold 200 of the component.
\<close>

theorem threshold_quantizes_pixel:
  assumes "4 * p + 3 < length data"
  shows "thresholdLoop t 0 data ! (4 * p) = pixelValue t (luminance data (4 * p)) \<and>
         thresholdLoop t 0 data ! (4 * p + 1) = pixelValue t (luminance data (4 * p)) \<and>
         thresholdLoop t 0 data ! (4 * p + 2) = pixelValue t (luminance data (4 * p)) \<and>
         thresholdLoop t 0 data ! (4 * p + 3) = data ! (4 * p + 3) \<and>
         (pixelValue t (luminance data (4 * p)) = 0 \<or> pixelValue t (luminance data (4 * p)) = 255) \<and>
         (pixelValue t (luminance data (4 * p)) = 0 \<longleftrightarrow> real (unat (luminance data (4 * p))) < t) \<and>
         length (thresholdLoop t 0 data) = length data"
proof -
  have r: "thresholdLoop t 0 data ! (4 * p) = pixelValue t (luminance data (4 * p))"
    using thresholdLoop_pixel [of p 0 data t] assms by simp
  have g: "thresholdLoop t 0 data ! (4 * p + 1) = pixelValue t (luminance data (4 * p))"
    using thresholdLoop_pixel [of p 1 data t] assms by simp
  have b: "thresholdLoop t 0 data ! (4 * p + 2) = pixelValue t (luminance data (4 * p))"
    using thresholdLoop_pixel [of p 2 data t] assms by simp
  have a: "thresholdLoop t 0 data ! (4 * p + 3) = data ! (4 * p + 3)"
    using thresholdLoop_pixel [of p 3 data t] assms by simp
  have v: "pixelValue t l = 0 \<or> pixelValue t l = 255" for l
    by (simp add: pixelValue_def)
  have q: "pixelValue t l = 0 \<longleftrightarrow> real (unat l) < t" for l
    by (simp add: pixelValue_def)
  from r g b a v q show ?thesis
    by (simp only: thresholdLoop_length)
qed

text \<open>
  The second pixel of a two-pixel buffer has red 10, below the threshold 200: its red,
  green and blue samples become 0 and its alpha stays 255.
\<close>

theorem threshold_quantizes_pixel_witness:
  "4 * 1 + 3 < length [255, 255, 255, 255, 10, 250, 30, 255 :: 8 word] \<and>
   thresholdLoop TEXT_THRESHOLD 0 [255, 255, 255, 255, 10, 250, 30, 255] ! (4 * 1) = 0 \<and>
   thresholdLoop TEXT_THRESHOLD 0 [255, 255, 255, 255, 10, 250, 30, 255] ! (4 * 1 + 1) = 0 \<and>
   thresholdLoop TEXT_THRESHOLD 0 [255, 255, 255, 255, 10, 250, 30, 255] ! (4 * 1 + 2) = 0 \<and>
   thresholdLoop TEXT_THRESHOLD 0 [255, 255, 255, 255, 10, 250, 30, 255] ! (4 * 1 + 3) = 255"
proof -
  have h: "4 * 1 + 3 < length [255, 255, 255, 255, 10, 250, 30, 255 :: 8 word]" by simp
  have v: "pixelValue TEXT_THRESHOLD (luminance [255, 255, 255, 255, 10, 250, 30, 255] (4 * 1)) = 0"
    by (simp add: pixelValue_def luminance_def TEXT_THRESHOLD_def)
  show ?thesis
    using threshold_quantizes_pixel [OF h, of TEXT_THRESHOLD] unfolding v by simp
qed

text \<open>
  C4 as the specification words it fails on the code: the loop takes \<^verbatim>\<open>data[i]\<close>, the
  red sample, as the luminance. For the pixel (255, 0, 0, 255) the average of red, green
  and blue is 85, below the threshold, while the sample the loop reads is 255, and the
  pixel comes out white.
\<close>

theorem luminance_average_counterexample:
  "real (unat (luminance [255, 0, 0, 255] 0)) \<noteq> averageRGB [255, 0, 0, 255] 0 \<and>
   averageRGB [255, 0, 0, 255] 0 < TEXT_THRESHOLD \<and>
   thresholdLoop TEXT_THRESHOLD 0 [255, 0, 0, 255] = [255, 255, 255, 255]"
proof -
  have "thresholdLoop TEXT_THRESHOLD 0 [255, 0, 0, 255] = [255, 255, 255, 255]"
    by (simp add: thresholdLoop.simps [of _ 0] thresholdLoop.simps [of _ 4] Let_def
          pixelValue_def luminance_def TEXT_THRESHOLD_def)
  then show ?thesis
    by (simp add: luminance_def averageRGB_def TEXT_THRESHOLD_def)
qed

text \<open>
  C4, amended. The luminance sample used for quantization is the red sample of the pixel
  alone: the three colour samples of the output are the quantized red sample, whatever
  green, blue and alpha hold. When green and blue equal red, as for the grey levels of
  black text on a white ground, the red sample is the unweighted average of the three
  colour samples.
\<close>

theorem luminance_is_red_channel:
  assumes "4 * p + 3 < length data"
  shows "luminance data (4 * p) = data ! (4 * p) \<and>
         (\<forall>k < 3. thresholdLoop t 0 data ! (4 * p + k) = pixelValue t (data ! (4 * p))) \<and>
         (data ! (4 * p + 1) = data ! (4 * p) \<and> data ! (4 * p + 2) = data ! (4 * p) \<longrightarrow>
            real (unat (luminance data (4 * p))) = averageRGB data (4 * p))"
proof -
  have "thresholdLoop t 0 data ! (4 * p + k) = pixelValue t (data ! (4 * p))" if "k < 3" for k
    using thresholdLoop_pixel [of p k data t] assms that by (simp add: luminance_def)
  then show ?thesis
    by (simp add: luminance_def averageRGB_def)
qed

text \<open>A grey pixel (90, 90, 90, 255): its luminance 90 is the average, and it turns black.\<close>

theorem luminance_is_red_channel_witness:
  "4 * 0 + 3 < length [90, 90, 90, 255 :: 8 word] \<and>
   luminance [90, 90, 90, 255] (4 * 0) = 90 \<and>
   thresholdLoop TEXT_THRESHOLD 0 [90, 90, 90, 255] ! (4 * 0 + 1) = 0 \<and>
   real (unat (luminance [90, 90, 90, 255] (4 * 0))) = averageRGB [90, 90, 90, 255] (4 * 0)"
proof -
  have h: "4 * 0 + 3 < length [90, 90, 90, 255 :: 8 word]" by simp
  have v: "pixelValue TEXT_THRESHOLD 90 = 0"
    by (simp add: pixelValue_def TEXT_THRESHOLD_def)
  have k: "(1::nat) < 3" by simp
  from luminance_is_red_channel [OF h, of TEXT_THRESHOLD]
  have "luminance [90, 90, 90, 255] (4 * 0) = [90, 90, 90, 255] ! (4 * 0)"
    and "thresholdLoop TEXT_THRESHOLD 0 [90, 90, 90, 255] ! (4 * 0 + 1) =
           pixelValue TEXT_THRESHOLD ([90, 90, 90, 255] ! (4 * 0))"
    and "real (unat (luminance [90, 90, 90, 255] (4 * 0))) = averageRGB [90, 90, 90, 255] (4 * 0)"
    using k by auto
  then show ?thesis using v by simp
qed

text \<open>
  C5. A buffer in which every sample is 255 comes out of the thresholding pass with every
  sample 255, no ink anywhere; a buffer in which every sample is 0 comes out with every
  sample 0, ink in every pixel.
\<close>

theorem threshold_white_and_black:
  "thresholdLoop TEXT_THRESHOLD 0 (replicate (4 * n) 255) = replicate (4 * n) 255 \<and>
   thresholdLoop TEXT_THRESHOLD 0 (replicate (4 * n) 0) = replicate (4 * n) 0"
proof
  show "thresholdLoop TEXT_THRESHOLD 0 (replicate (4 * n) 255) = replicate (4 * n) 255"
    by (rule thresholdLoop_uniform [where c = 255]) (simp_all add: pixelValue_def TEXT_THRESHOLD_def)
  show "thresholdLoop TEXT_THRESHOLD 0 (replicate (4 * n) 0) = replicate (4 * n) 0"
    by (rule thresholdLoop_uniform [where c = 0]) (simp_all add: pixelValue_def TEXT_THRESHOLD_def)
qed

subsection \<open>Wrapping and normalizing\<close>

text \<open>
  C6 as the specification words it fails on the code at one case. With the limit 4 the
  text \<open>a b-c\<close> fills its first line with \<open>a b-\<close>, which holds a space strictly before the
  limit; the line the specification describes ends after that space, while the code,
  finding the last breakable character at the limit itself, pushes the whole of \<open>a b-\<close>.
\<close>

theorem wrap_break_counterexample:
  "wrapMonospaceText [97, 32, 98, 45, 99] 4 = [[97, 32, 98, 45], [99]] \<and>
   isBreakChar ([97, 32, 98, 45] ! 1) \<and>
   specFirstLine [97, 32, 98, 45] = [97, 32] \<and>
   hd (wrapMonospaceText [97, 32, 98, 45, 99] 4) \<noteq> specFirstLine [97, 32, 98, 45]"
proof -
  have "[0..<length [97, 32, 98, 45 :: 16 word] - 1] = [0, 1, 2]"
    by (simp add: upt_rec)
  then have "specFirstLine [97, 32, 98, 45] = [97, 32]"
    by (simp add: specFirstLine_def isBreakChar_def char_defs)
  then show ?thesis
    by (simp add: wrap_examples isBreakChar_def char_defs)
qed

text \<open>
  C6, amended. Every line wrapMonospaceText returns has at most max(1, maxCharsPerLine)
  characters. Let \<open>pre\<close>, free of line feeds, fill a line of the normalized text exactly
  to the limit. When the last breakable character of \<open>pre\<close> (space, tab or hyphen) lies
  strictly before the limit, the line is broken immediately after that character, and
  what follows it in \<open>pre\<close> starts the next line. Otherwise, that is when \<open>pre\<close> holds no
  breakable character or the character at the limit is itself breakable, the line is
  hard-broken at the limit: it is \<open>pre\<close>, and the next line starts afresh. A stretch
  shorter than the limit is a line of its own when a line feed or the end of the text
  follows it, and after a line feed the next line starts afresh too. By
  \<open>wrap_text_cases\<close> every text starts in one of these ways, and what remains is wrapped
  by the same rules, so the rules hold for every line and not for the first alone.
\<close>

theorem wrapMonospaceText_line_breaks:
  "wrapMonospaceText val n = wrapLines (max 1 n) (replaceCRLF val) \<and>
   (\<forall>l \<in> set (wrapMonospaceText val n). int (length l) \<le> max 1 n) \<and>
   (LF \<notin> set pre \<and> int (length pre) = max 1 n \<and>
    Suc p < length pre \<and> isBreakChar (pre ! p) \<and>
    (\<forall>j. p < j \<and> j < length pre \<longrightarrow> \<not> isBreakChar (pre ! j)) \<longrightarrow>
      wrapLines (max 1 n) (pre @ rest) =
        take (Suc p) pre # wrapLines (max 1 n) (drop (Suc p) pre @ rest)) \<and>
   (LF \<notin> set pre \<and> int (length pre) = max 1 n \<and>
    ((\<forall>j < length pre. \<not> isBreakChar (pre ! j)) \<or> isBreakChar (last pre)) \<longrightarrow>
      wrapLines (max 1 n) (pre @ rest) = pre # wrapLines (max 1 n) rest) \<and>
   (LF \<notin> set pre \<and> int (length pre) < max 1 n \<longrightarrow>
      wrapLines (max 1 n) (pre @ LF # rest) = pre # wrapLines (max 1 n) rest \<and>
      wrapLines (max 1 n) pre = [pre])"
proof (intro conjI impI ballI)
  show "wrapMonospaceText val n = wrapLines (max 1 n) (replaceCRLF val)"
    by (rule wrapMonospaceText_eq)
next
  fix l assume "l \<in> set (wrapMonospaceText val n)"
  then have "l \<in> set (wrapLines (max 1 n) (replaceCRLF val))"
    by (simp only: wrapMonospaceText_eq)
  then show "int (length l) \<le> max 1 n"
    by (rule wrapLines_length [rotated]) simp
next
  assume "LF \<notin> set pre \<and> int (length pre) = max 1 n \<and>
    Suc p < length pre \<and> isBreakChar (pre ! p) \<and>
    (\<forall>j. p < j \<and> j < length pre \<longrightarrow> \<not> isBreakChar (pre ! j))"
  then show "wrapLines (max 1 n) (pre @ rest) =
        take (Suc p) pre # wrapLines (max 1 n) (drop (Suc p) pre @ rest)"
    by (intro wrapLines_soft_break) (simp, simp, simp, simp, blast)
next
  assume a: "LF \<notin> set pre \<and> int (length pre) = max 1 n \<and>
    ((\<forall>j < length pre. \<not> isBreakChar (pre ! j)) \<or> isBreakChar (last pre))"
  then have ne: "pre \<noteq> []" by auto
  from a consider (none) "\<forall>j < length pre. \<not> isBreakChar (pre ! j)" | (atLimit) "isBreakChar (last pre)"
    by blast
  then show "wrapLines (max 1 n) (pre @ rest) = pre # wrapLines (max 1 n) rest"
  proof cases
    case none
    with a show ?thesis by (intro wrapLines_hard_break) simp_all
  next
    case atLimit
    have "wrapLines (max 1 n) (pre @ rest) =
           take (Suc (length pre - 1)) pre # wrapLines (max 1 n) (drop (Suc (length pre - 1)) pre @ rest)"
      using a ne atLimit by (intro wrapLines_soft_break) (auto simp: last_conv_nth)
    with ne show ?thesis by simp
  qed
next
  assume "LF \<notin> set pre \<and> int (length pre) < max 1 n"
  then show "wrapLines (max 1 n) (pre @ LF # rest) = pre # wrapLines (max 1 n) rest"
    by (intro wrapLines_newline) simp_all
next
  assume "LF \<notin> set pre \<and> int (length pre) < max 1 n"
  then show "wrapLines (max 1 n) pre = [pre]"
    by (intro wrapLines_single) simp_all
qed

text \<open>
  With the limit 4: \<open>ab cde\<close> breaks after the space into \<open>ab \<close> and \<open>cde\<close>; \<open>abcde\<close> has
  nothing to break at and gives \<open>abcd\<close> and \<open>e\<close>; \<open>a b-c\<close> ends its first line with the
  hyphen at the limit and gives \<open>a b-\<close> and \<open>c\<close>; in \<open>a \<close>, line feed, \<open>bcdef\<close> the space
  before the line feed is forgotten, and the second line is hard-broken into \<open>bcde\<close> and
  \<open>f\<close>.
\<close>

theorem wrapMonospaceText_line_breaks_witness:
  "LF \<notin> set [97, 98, 32, 99] \<and> int (length [97, 98, 32, 99 :: 16 word]) = max 1 4 \<and>
   Suc 2 < length [97, 98, 32, 99 :: 16 word] \<and> isBreakChar ([97, 98, 32, 99] ! 2) \<and>
   \<not> isBreakChar ([97, 98, 32, 99] ! 3) \<and>
   wrapLines (max 1 4) ([97, 98, 32, 99] @ [100, 101]) =
     take (Suc 2) [97, 98, 32, 99] # wrapLines (max 1 4) (drop (Suc 2) [97, 98, 32, 99] @ [100, 101]) \<and>
   LF \<notin> set [97, 98, 99, 100] \<and> int (length [97, 98, 99, 100 :: 16 word]) = max 1 4 \<and>
   list_all (\<lambda>c. \<not> isBreakChar c) [97, 98, 99, 100] \<and>
   wrapLines (max 1 4) ([97, 98, 99, 100] @ [101]) = [97, 98, 99, 100] # wrapLines (max 1 4) [101] \<and>
   LF \<notin> set [97, 32, 98, 45] \<and> int (length [97, 32, 98, 45 :: 16 word]) = max 1 4 \<and>
   isBreakChar (last [97, 32, 98, 45]) \<and>
   wrapLines (max 1 4) ([97, 32, 98, 45] @ [99]) = [97, 32, 98, 45] # wrapLines (max 1 4) [99] \<and>
   LF \<notin> set [97, 32] \<and> int (length [97, 32 :: 16 word]) < max 1 4 \<and>
   wrapLines (max 1 4) ([97, 32] @ LF # [98, 99, 100, 101, 102]) =
     [97, 32] # wrapLines (max 1 4) [98, 99, 100, 101, 102] \<and>
   wrapLines (max 1 4) [97, 32] = [[97, 32]] \<and>
   wrapMonospaceText [97, 32, 10, 98, 99, 100, 101, 102] 4 = [[97, 32], [98, 99, 100, 101], [102]] \<and>
   wrapMonospaceText [97, 98, 32, 99, 100, 101] 4 = [[97, 98, 32], [99, 100, 101]] \<and>
   list_all (\<lambda>l. int (length l) \<le> max 1 4) (wrapMonospaceText [97, 98, 32, 99, 100, 101] 4)"
proof -
  let ?soft = "[97, 98, 32, 99] :: ustring"
  let ?hard = "[97, 98, 99, 100] :: ustring"
  let ?hyph = "[97, 32, 98, 45] :: ustring"
  let ?para = "[97, 32] :: ustring"
  let ?next = "[98, 99, 100, 101, 102] :: ustring"
  let ?val = "[97, 98, 32, 99, 100, 101] :: ustring"
  have s1: "LF \<notin> set ?soft" and s2: "int (length ?soft) = max 1 4" and s3: "Suc 2 < length ?soft"
    and s4: "isBreakChar (?soft ! 2)" and s5: "\<not> isBreakChar (?soft ! 3)"
    by (simp_all add: char_defs isBreakChar_def)
  have s6: "\<forall>j. 2 < j \<and> j < length ?soft \<longrightarrow> \<not> isBreakChar (?soft ! j)"
  proof (intro allI impI)
    fix j :: nat assume "2 < j \<and> j < length ?soft"
    then have "j = 3" by simp
    with s5 show "\<not> isBreakChar (?soft ! j)" by simp
  qed
  have h1: "LF \<notin> set ?hard" and h2: "int (length ?hard) = max 1 4"
    and h3: "list_all (\<lambda>c. \<not> isBreakChar c) ?hard"
    by (simp_all add: char_defs isBreakChar_def)
  from h3 have h4: "\<forall>j < length ?hard. \<not> isBreakChar (?hard ! j)"
    unfolding list_all_length .
  have y1: "LF \<notin> set ?hyph" and y2: "int (length ?hyph) = max 1 4"
    and y3: "isBreakChar (last ?hyph)"
    by (simp_all add: char_defs isBreakChar_def)
  have p1: "LF \<notin> set ?para" and p2: "int (length ?para) < max 1 4"
    by (simp_all add: char_defs)
  have soft: "wrapLines (max 1 4) (?soft @ [100, 101]) =
     take (Suc 2) ?soft # wrapLines (max 1 4) (drop (Suc 2) ?soft @ [100, 101])"
    using wrapMonospaceText_line_breaks [of ?val 4 ?soft 2 "[100, 101]"] s1 s2 s3 s4 s6 by blast
  have hard: "wrapLines (max 1 4) (?hard @ [101]) = ?hard # wrapLines (max 1 4) [101]"
    using wrapMonospaceText_line_breaks [of ?val 4 ?hard 0 "[101]"] h1 h2 h4 by blast
  have hyph: "wrapLines (max 1 4) (?hyph @ [99]) = ?hyph # wrapLines (max 1 4) [99]"
    using wrapMonospaceText_line_breaks [of ?val 4 ?hyph 0 "[99]"] y1 y2 y3 by blast
  have para: "wrapLines (max 1 4) (?para @ LF # ?next) = ?para # wrapLines (max 1 4) ?next"
    and last: "wrapLines (max 1 4) ?para = [?para]"
    using wrapMonospaceText_line_breaks [of ?val 4 ?para 0 ?next] p1 p2 by blast+
  have bound: "list_all (\<lambda>l. int (length l) \<le> max 1 4) (wrapMonospaceText ?val 4)"
    using wrapMonospaceText_line_breaks [of ?val 4 ?soft 2 "[100, 101]"] unfolding list_all_iff by blast
  have e: "wrapMonospaceText [97, 32, 10, 98, 99, 100, 101, 102] 4 = [[97, 32], [98, 99, 100, 101], [102]]"
    unfolding wrapMonospaceText_eq
    by (simp add: char_defs wrapLines_def wrapLoop_def wrapStep_def wrapInit_def
        pushCurrentLine_def isBreakChar_def sliceTo_def sliceFrom_def rescan_def Let_def)
  from s1 s2 s3 s4 s5 soft h1 h2 h3 hard y1 y2 y3 hyph p1 p2 para last e wrap_examples(1) bound
  show ?thesis
    by (intro conjI)
qed

text \<open>
  C8. Wrapping loses no text: the lines wrapMonospaceText returns, concatenated, are the
  input with every CR LF pair replaced by LF and every LF then removed, so every other
  code unit appears once and in its place; the list of lines is never empty.
\<close>

theorem wrapMonospaceText_keeps_text:
  "concat (wrapMonospaceText val n) = filter (\<lambda>c. c \<noteq> LF) (replaceCRLF val) \<and>
     wrapMonospaceText val n \<noteq> []"
  by (simp add: wrapMonospaceText_def Let_def wrapLines_content) (simp add: wrapLines_def Let_def)

subsection \<open>The print button and the text it takes\<close>

text \<open>
  C9. In text mode, when the normalized text is empty or holds white space only,
  onPrintClick alerts the user and returns: the state, its canvas included, is as before,
  and no printImage is among the events.
\<close>

theorem onPrintClick_rejects_blank_text:
  assumes "mode st = TextMode" and "list_all isTrimSpace (printableText st)"
  shows "onPrintClick env st = (st, [Alert ''Please enter some text first.'']) \<and>
         (\<forall>imageData. PrintImage imageData \<notin> set (snd (onPrintClick env st)))"
  using assms by (simp add: onPrintClick_def trim_blank)

text \<open>A space, a tab and a line feed typed: the click ends in the alert.\<close>

theorem onPrintClick_rejects_blank_text_witness:
  "mode blankTextState = TextMode \<and>
   list_all isTrimSpace (printableText blankTextState) \<and>
   printableText blankTextState = [SPACE, SPACE, SPACE, SPACE, SPACE, LF] \<and>
   onPrintClick blankGlyphBrowser blankTextState =
     (blankTextState, [Alert ''Please enter some text first.''])"
proof -
  have m: "mode blankTextState = TextMode" by (simp add: blankTextState_def)
  have t: "printableText blankTextState = [SPACE, SPACE, SPACE, SPACE, SPACE, LF]"
    by (simp add: printableText_def blankTextState_def char_defs)
  have w: "list_all isTrimSpace (printableText blankTextState)"
    unfolding t by (simp add: isTrimSpace_def char_defs)
  from onPrintClick_rejects_blank_text [OF m w, of blankGlyphBrowser] m w t
  show ?thesis by simp
qed

text \<open>
  C10. normalizeTextForPrinting replaces every tab by four spaces and copies every other
  code unit, so its result is three code units longer for each tab, and holds no tab;
  neither does printableText, the text handed to wrapping and rasterization.
\<close>

theorem normalizeTextForPrinting_tabs:
  "normalizeTextForPrinting v =
       concat (map (\<lambda>c. if c = TAB then [SPACE, SPACE, SPACE, SPACE] else [c]) v) \<and>
     TAB \<notin> set (normalizeTextForPrinting v) \<and>
     length (normalizeTextForPrinting v) = length v + 3 * length (filter (\<lambda>c. c = TAB) v) \<and>
     TAB \<notin> set (printableText st)"
proof -
  have a: "normalizeTextForPrinting v =
       concat (map (\<lambda>c. if c = TAB then [SPACE, SPACE, SPACE, SPACE] else [c]) v)" for v
    by (induction v) simp_all
  have b: "TAB \<notin> set (normalizeTextForPrinting v)" for v
    by (induction v) (simp_all add: char_defs)
  have d: "length (normalizeTextForPrinting v) = length v + 3 * length (filter (\<lambda>c. c = TAB) v)"
    by (induction v) simp_all
  from a b d show ?thesis by (simp add: printableText_def)
qed

end
